theory Spec2Isabelle
  imports Main "HOL-Library.Sublist"
begin

section \<open>The per-account state container of the chat client\<close>

text \<open>
  A shallow embedding of the class \<open>Account\<close> and of the mention completion of the chat box
  that consumes \<open>findUsersByName\<close>.

  Conventions of the embedding:
  \<^item> JavaScript strings are \<open>string\<close>; \<open>toLowerCase\<close> is modelled on ASCII letters.
  \<^item> The objects \<open>users\<close> and \<open>userNamesMap\<close> are maps; a missing property is \<open>None\<close>.
    Ids are strings, since a property key is the string form of the id. Ids are taken not to
    name a property that a plain object inherits from its prototype.
  \<^item> User, channel and account objects are values; no caller mutates a user object
    after it was handed to \<open>saveUser\<close>.
  \<^item> A thrown exception, and the rejection of the promise of an \<open>async\<close> method, is the
    \<open>Inl\<close> side of a sum.
  \<^item> A \<open>dispatch\<close> on a signal, and a call into the account manager, is recorded at the end
    of the trace \<open>signals\<close>; observers are taken not to write to the account.
  \<^item> Mention counts are integers (exact in a JavaScript number below \<open>2 ^ 53\<close>).
\<close>

subsection \<open>Data\<close>

datatype error = TypeError | Error string

record user =
  user_id :: string
  user_name :: string

text \<open>A channel or a direct message; only a direct message has a \<open>userId\<close>.\<close>

record channel =
  chan_id :: string
  chan_isRead :: bool
  chan_isMuted :: bool
  chan_mentions :: int
  chan_userId :: "string option"

datatype event =
    OnUpdateReadState bool
  | AccountManager_onUpdateReadState
  | OnUpdateMentions
  | AccountManager_updateMentions

record config =
  config_id :: string
  config_name :: string
  config_icon :: "string option"
  config_currentChannelId :: "string option"

record account =
  service_id :: string
  account_id :: string
  account_name :: string
  icon :: "string option"
  url :: string
  channels :: "channel list"
  dms :: "channel list"
  emoji :: "string \<rightharpoonup> string"
  currentChannelId :: "string option"
  currentUserId :: "string option"
  currentUserName :: "string option"
  users :: "string \<rightharpoonup> user"
  userNamesMap :: "char \<rightharpoonup> string list"
  isRead :: bool
  mentions :: int
  status :: string
  isChannelsReady :: bool
  signals :: "event list"

definition MENTION_SEARCH_LIMIT :: nat where
  "MENTION_SEARCH_LIMIT = 5"

text \<open>\<open>x ? x : null\<close> on an optional string: the empty string is falsy.\<close>

definition truthy_or_null :: "string option \<Rightarrow> string option" where
  "truthy_or_null x = (case x of None \<Rightarrow> None | Some s \<Rightarrow> if s = [] then None else Some s)"

definition Account :: "string \<Rightarrow> config \<Rightarrow> account" where
  "Account service cfg =
     \<lparr> service_id = service,
       account_id = config_id cfg,
       account_name = config_name cfg,
       icon = truthy_or_null (config_icon cfg),
       url = ''https://'' @ config_id cfg @ ''.'' @ service @ ''.com'',
       channels = [],
       dms = [],
       emoji = Map.empty,
       currentChannelId = truthy_or_null (config_currentChannelId cfg),
       currentUserId = None,
       currentUserName = None,
       users = Map.empty,
       userNamesMap = Map.empty,
       isRead = True,
       mentions = 0,
       status = ''connecting'',
       isChannelsReady = False,
       signals = [] \<rparr>"

subsection \<open>Strings and arrays\<close>

text \<open>\<open>toLowerCase\<close> on one character: the ASCII capitals go to their small letters.\<close>

definition toLowerCase_char :: "char \<Rightarrow> char" where
  "toLowerCase_char c =
     (case map_of (zip ''ABCDEFGHIJKLMNOPQRSTUVWXYZ'' ''abcdefghijklmnopqrstuvwxyz'') c of
        Some l \<Rightarrow> l
      | None \<Rightarrow> c)"

definition toLowerCase :: "string \<Rightarrow> string" where
  "toLowerCase s = map toLowerCase_char s"

text \<open>\<open>s.indexOf(t)\<close> on strings: the first position where \<open>t\<close> occurs in \<open>s\<close>, or \<open>-1\<close>.\<close>

fun indexOf_str :: "string \<Rightarrow> string \<Rightarrow> int" where
  "indexOf_str s t =
     (if prefix t s then 0
      else case s of
             [] \<Rightarrow> -1
           | _ # s' \<Rightarrow> (let r = indexOf_str s' t in if r < 0 then -1 else r + 1))"

text \<open>\<open>xs.indexOf(x)\<close> on arrays: the first position of \<open>x\<close> in \<open>xs\<close>, or \<open>-1\<close>.\<close>

fun indexOf :: "'a list \<Rightarrow> 'a \<Rightarrow> int" where
  "indexOf [] x = -1"
| "indexOf (y # ys) x =
     (if y = x then 0 else (let r = indexOf ys x in if r < 0 then -1 else r + 1))"

text \<open>\<open>xs.splice(i, 1)\<close>: the array that is left when the element at \<open>i\<close> is taken out.\<close>

definition splice1 :: "'a list \<Rightarrow> nat \<Rightarrow> 'a list" where
  "splice1 xs i = take i xs @ drop (Suc i) xs"

subsection \<open>Lookups\<close>

definition findChannelById :: "account \<Rightarrow> string \<Rightarrow> channel option" where
  "findChannelById a i =
     (case find (\<lambda>c. chan_id c = i) (channels a) of
        Some c \<Rightarrow> Some c
      | None \<Rightarrow> find (\<lambda>c. chan_id c = i) (dms a))"

definition findChannelByUserId :: "account \<Rightarrow> string \<Rightarrow> channel option" where
  "findChannelByUserId a i = find (\<lambda>c. chan_userId c = Some i) (dms a)"

definition findUserById :: "account \<Rightarrow> string \<Rightarrow> user option" where
  "findUserById a i = users a i"

text \<open>
  The loop of \<open>findUsersByName\<close> over the bucket, with the array \<open>users\<close> and the variable
  \<open>exactIndex\<close> as accumulators. Reading \<open>name\<close> of a missing user throws.
\<close>

fun scanUsers ::
  "(string \<rightharpoonup> user) \<Rightarrow> string \<Rightarrow> string list \<Rightarrow> user list \<Rightarrow> nat option
     \<Rightarrow> error + (user list \<times> nat option)" where
  "scanUsers us lowerName [] acc exactIndex = Inr (acc, exactIndex)"
| "scanUsers us lowerName (i # ids) acc exactIndex =
     (case us i of
        None \<Rightarrow> Inl TypeError
      | Some u \<Rightarrow>
          (let userLowerName = toLowerCase (user_name u);
               isExact = (userLowerName = lowerName)
           in if isExact \<or> indexOf_str userLowerName lowerName = 0
              then (let acc' = acc @ [u];
                        exactIndex' = (if isExact then Some (length acc' - 1) else exactIndex)
                    in if length acc' = MENTION_SEARCH_LIMIT
                       then Inr (acc', exactIndex')
                       else scanUsers us lowerName ids acc' exactIndex')
              else scanUsers us lowerName ids acc exactIndex))"

definition findUsersByName :: "account \<Rightarrow> string \<Rightarrow> error + (user list \<times> nat option)" where
  "findUsersByName a name =
     (let lowerName = toLowerCase name
      in case lowerName of
           [] \<Rightarrow> Inr ([], None)
         | firstLetter # _ \<Rightarrow>
             (case userNamesMap a firstLetter of
                None \<Rightarrow> Inr ([], None)
              | Some letterUsers \<Rightarrow> scanUsers (users a) lowerName letterUsers [] None))"

subsection \<open>The mention completion of the chat box\<close>

text \<open>
  What \<open>onKeyUp\<close> does with the result of \<open>findUsersByName\<close>: one match is inserted, no match
  opens nothing, and otherwise a menu is opened after the exact match was moved to the top.
\<close>

datatype completion = InsertUser string | NoCompletion | PopupMenu "user list"

definition onKeyUp_mention :: "account \<Rightarrow> string \<Rightarrow> error + completion" where
  "onKeyUp_mention a name =
     (case findUsersByName a name of
        Inl e \<Rightarrow> Inl e
      | Inr (us, exactIndex) \<Rightarrow>
          (case us of
             [] \<Rightarrow> Inr NoCompletion
           | [u] \<Rightarrow> Inr (InsertUser (user_id u))
           | _ \<Rightarrow>
               (case exactIndex of
                  None \<Rightarrow> Inr (PopupMenu us)
                | Some i \<Rightarrow>
                    if i < length us then Inr (PopupMenu ((us ! i) # splice1 us i))
                    else Inl TypeError)))"

subsection \<open>Aggregates\<close>

definition computeReadState :: "account \<Rightarrow> bool" where
  "computeReadState a =
     (let compute = (\<lambda>r c. if chan_isRead c \<or> chan_isMuted c then r else False)
      in foldl compute (foldl compute True (dms a)) (channels a))"

definition setReadState :: "bool \<Rightarrow> account \<Rightarrow> account" where
  "setReadState read a =
     (if isRead a \<noteq> read
      then a\<lparr> isRead := read,
              signals := signals a @ [OnUpdateReadState read, AccountManager_onUpdateReadState] \<rparr>
      else a)"

definition updateReadState :: "account \<Rightarrow> account" where
  "updateReadState a = setReadState (computeReadState a) a"

definition computeMentions :: "account \<Rightarrow> int" where
  "computeMentions a =
     (let compute = (\<lambda>m c. m + chan_mentions c)
      in foldl compute (foldl compute 0 (dms a)) (channels a))"

definition updateMentions :: "account \<Rightarrow> account" where
  "updateMentions a =
     (let m = computeMentions a
      in if m \<noteq> mentions a
         then a\<lparr> mentions := m,
                 signals := signals a @ [OnUpdateMentions, AccountManager_updateMentions] \<rparr>
         else a)"

subsection \<open>The user directory\<close>

definition saveUser :: "account \<Rightarrow> user \<Rightarrow> error + (user \<times> account)" where
  "saveUser a newUser =
     (let oldUser = users a (user_id newUser)
      in case user_name newUser of
           [] \<Rightarrow> Inl TypeError
         | n # _ \<Rightarrow>
             (let newFirstLetter = toLowerCase_char n;
                  removed =
                    (case oldUser of
                       None \<Rightarrow> Inr (userNamesMap a)
                     | Some old \<Rightarrow>
                         if user_name old \<noteq> user_name newUser
                         then (case user_name old of
                                 [] \<Rightarrow> Inl TypeError
                               | m # _ \<Rightarrow>
                                   (let oldFirstLetter = toLowerCase_char m
                                    in case userNamesMap a oldFirstLetter of
                                         None \<Rightarrow> Inl TypeError
                                       | Some bucket \<Rightarrow>
                                           (let index = indexOf bucket (user_id old)
                                            in if index > -1
                                               then Inr ((userNamesMap a)
                                                      (oldFirstLetter \<mapsto> splice1 bucket (nat index)))
                                               else Inr (userNamesMap a))))
                         else Inr (userNamesMap a))
              in case removed of
                   Inl e \<Rightarrow> Inl e
                 | Inr m1 \<Rightarrow>
                     (let m2 = (case m1 newFirstLetter of
                                  None \<Rightarrow> m1(newFirstLetter \<mapsto> [])
                                | Some _ \<Rightarrow> m1);
                          bucket = (case m2 newFirstLetter of None \<Rightarrow> [] | Some b \<Rightarrow> b);
                          m3 = m2(newFirstLetter \<mapsto> bucket @ [user_id newUser])
                      in Inr (newUser,
                              a\<lparr> users := (users a)(user_id newUser \<mapsto> newUser),
                                 userNamesMap := m3 \<rparr>))))"

text \<open>A sequence of \<open>saveUser\<close> calls; the first exception ends it.\<close>

fun saveUsers :: "account \<Rightarrow> user list \<Rightarrow> error + account" where
  "saveUsers a [] = Inr a"
| "saveUsers a (u # us) =
     (case saveUser a u of Inl e \<Rightarrow> Inl e | Inr (_, a') \<Rightarrow> saveUsers a' us)"

subsection \<open>The lifecycle operations of the base class\<close>

definition disconnect :: "account \<Rightarrow> error + account" where
  "disconnect a = Inl (Error ''Should be implemented by subclass'')"

definition reload :: "account \<Rightarrow> error + account" where
  "reload a = Inl (Error ''Should be implemented by subclass'')"

definition getAllChannels :: "account \<Rightarrow> error + channel list" where
  "getAllChannels a = Inl (Error ''Should be implemented by subclass'')"

definition join :: "account \<Rightarrow> channel \<Rightarrow> error + account" where
  "join a c = Inl (Error ''Should be implemented by subclass'')"

definition leave :: "account \<Rightarrow> channel \<Rightarrow> error + account" where
  "leave a c = Inl (Error ''Should be implemented by subclass'')"

subsection \<open>The search as the specification words it\<close>

text \<open>
  A candidate matches if its lowercased name equals the query or starts with it; the exact
  index is the position of the exact match among the collected matches.
\<close>

definition isExact_spec :: "string \<Rightarrow> user \<Rightarrow> bool" where
  "isExact_spec lq u = (toLowerCase (user_name u) = lq)"

definition isMatch_spec :: "string \<Rightarrow> user \<Rightarrow> bool" where
  "isMatch_spec lq u = (toLowerCase (user_name u) = lq \<or> prefix lq (toLowerCase (user_name u)))"

definition exactIndex_spec :: "string \<Rightarrow> user list \<Rightarrow> nat option" where
  "exactIndex_spec lq ms =
     (let positions = filter (\<lambda>i. isExact_spec lq (ms ! i)) [0..<length ms]
      in if positions = [] then None else Some (last positions))"

definition findUsersByName_spec :: "account \<Rightarrow> string \<Rightarrow> user list \<times> nat option" where
  "findUsersByName_spec a q =
     (let lq = toLowerCase q
      in case lq of
           [] \<Rightarrow> ([], None)
         | c # _ \<Rightarrow>
             (case userNamesMap a c of
                None \<Rightarrow> ([], None)
              | Some ids \<Rightarrow>
                  (let ms = take MENTION_SEARCH_LIMIT
                              (filter (isMatch_spec lq) (List.map_filter (users a) ids))
                   in (ms, exactIndex_spec lq ms))))"

text \<open>The exact index after a scan of \<open>ms\<close> that starts at position \<open>k\<close> with \<open>ex\<close>.\<close>

fun exactIndex_from :: "string \<Rightarrow> nat \<Rightarrow> user list \<Rightarrow> nat option \<Rightarrow> nat option" where
  "exactIndex_from lq k [] ex = ex"
| "exactIndex_from lq k (u # us) ex =
     exactIndex_from lq (Suc k) us (if isExact_spec lq u then Some k else ex)"

text \<open>The variable \<open>exactIndex\<close> fits the array \<open>users\<close> collected so far.\<close>

definition exactIndex_ok :: "string \<Rightarrow> user list \<Rightarrow> nat option \<Rightarrow> bool" where
  "exactIndex_ok lq acc ex =
     (case ex of
        None \<Rightarrow> list_all (\<lambda>u. \<not> isExact_spec lq u) acc
      | Some i \<Rightarrow> i < length acc \<and> isExact_spec lq (acc ! i))"

text \<open>Every id of every bucket is a key of \<open>users\<close>.\<close>

definition index_in_users :: "account \<Rightarrow> bool" where
  "index_in_users a =
     (\<forall>c ids. userNamesMap a c = Some ids \<longrightarrow> (\<forall>i\<in>set ids. users a i \<noteq> None))"

text \<open>The fields that the aggregate updates leave alone.\<close>

definition same_frame :: "account \<Rightarrow> account \<Rightarrow> bool" where
  "same_frame a a' =
     (service_id a' = service_id a \<and> account_id a' = account_id a \<and>
      account_name a' = account_name a \<and> icon a' = icon a \<and> url a' = url a \<and>
      channels a' = channels a \<and> dms a' = dms a \<and> emoji a' = emoji a \<and>
      currentChannelId a' = currentChannelId a \<and> currentUserId a' = currentUserId a \<and>
      currentUserName a' = currentUserName a \<and> users a' = users a \<and>
      userNamesMap a' = userNamesMap a \<and> status a' = status a \<and>
      isChannelsReady a' = isChannelsReady a)"

text \<open>One child's mention count changes by \<open>d\<close>.\<close>

definition bump_mentions :: "channel list \<Rightarrow> nat \<Rightarrow> int \<Rightarrow> channel list" where
  "bump_mentions cs i d = cs[i := (cs ! i)\<lparr> chan_mentions := chan_mentions (cs ! i) + d \<rparr>]"

subsection \<open>The invariant of the index\<close>

definition bucket_of :: "account \<Rightarrow> char \<Rightarrow> string list" where
  "bucket_of a c = (case userNamesMap a c of None \<Rightarrow> [] | Some b \<Rightarrow> b)"

definition first_letter :: "user \<Rightarrow> char option" where
  "first_letter u = (case user_name u of [] \<Rightarrow> None | n # _ \<Rightarrow> Some (toLowerCase_char n))"

text \<open>
  Every stored user is stored under its own id, and its id stands once in the bucket of the
  lowercase first character of its name and in no other bucket.
\<close>

definition index_consistent :: "account \<Rightarrow> bool" where
  "index_consistent a =
     (\<forall>i u. users a i = Some u \<longrightarrow>
        user_id u = i \<and>
        (\<exists>c. first_letter u = Some c \<and>
           (\<forall>c'. count_list (bucket_of a c') i = (if c' = c then 1 else 0))))"

text \<open>No call of the sequence saves a stored user again under the name it has.\<close>

fun changes_name :: "account \<Rightarrow> user list \<Rightarrow> bool" where
  "changes_name a [] = True"
| "changes_name a (u # us) =
     ((case users a (user_id u) of
         None \<Rightarrow> True
       | Some old \<Rightarrow> user_name old \<noteq> user_name u) \<and>
      (case saveUser a u of Inl _ \<Rightarrow> True | Inr (_, a') \<Rightarrow> changes_name a' us))"

subsection \<open>Example values\<close>

definition fresh :: account where
  "fresh = Account ''slack''
     \<lparr> config_id = ''team'', config_name = ''Team'', config_icon = None,
       config_currentChannelId = None \<rparr>"

definition alice :: user where "alice = \<lparr> user_id = ''1'', user_name = ''Alice'' \<rparr>"
definition alex :: user where "alex = \<lparr> user_id = ''2'', user_name = ''Alex'' \<rparr>"
definition alexander :: user where "alexander = \<lparr> user_id = ''3'', user_name = ''Alexander'' \<rparr>"
definition bob :: user where "bob = \<lparr> user_id = ''4'', user_name = ''Bob'' \<rparr>"

definition bob_1 :: user where "bob_1 = \<lparr> user_id = ''1'', user_name = ''Bob'' \<rparr>"
definition robert_1 :: user where "robert_1 = \<lparr> user_id = ''1'', user_name = ''Robert'' \<rparr>"

text \<open>The account after Alice, Alex, Alexander and Bob were saved, in this order.\<close>

definition directory :: account where
  "directory = fresh
     \<lparr> users := [''1'' \<mapsto> alice, ''2'' \<mapsto> alex, ''3'' \<mapsto> alexander, ''4'' \<mapsto> bob],
       userNamesMap := [CHR ''a'' \<mapsto> [''1'', ''2'', ''3''], CHR ''b'' \<mapsto> [''4'']] \<rparr>"

text \<open>The account after Alexander and then Alex were saved.\<close>

definition directory_rev :: account where
  "directory_rev = fresh
     \<lparr> users := [''3'' \<mapsto> alexander, ''2'' \<mapsto> alex],
       userNamesMap := [CHR ''a'' \<mapsto> [''3'', ''2'']] \<rparr>"

definition unread_dm :: channel where
  "unread_dm = \<lparr> chan_id = ''D1'', chan_isRead = False, chan_isMuted = False,
                 chan_mentions = 2, chan_userId = Some ''1'' \<rparr>"

definition muted_channel :: channel where
  "muted_channel = \<lparr> chan_id = ''C1'', chan_isRead = False, chan_isMuted = True,
                     chan_mentions = 3, chan_userId = None \<rparr>"

text \<open>An account with one muted unread channel and one unread direct message.\<close>

definition aggregates_example :: account where
  "aggregates_example =
     fresh \<lparr> channels := [muted_channel], dms := [unread_dm], mentions := 5 \<rparr>"

text \<open>How often the read-state signal of the account was dispatched.\<close>

definition readStateDispatches :: "account \<Rightarrow> nat" where
  "readStateDispatches a =
     length (filter (\<lambda>e. case e of OnUpdateReadState _ \<Rightarrow> True | _ \<Rightarrow> False) (signals a))"

section \<open>Properties\<close>

subsection \<open>Strings, arrays and folds\<close>

lemma indexOf_str_0_iff: "indexOf_str s t = 0 \<longleftrightarrow> prefix t s"
  by (cases s) (auto simp: Let_def)

declare indexOf_str.simps [simp del]

lemma indexOf_nonneg_iff: "\<not> indexOf xs x < 0 \<longleftrightarrow> x \<in> set xs"
  by (induction xs) (auto simp: Let_def)

lemma indexOf_gt_iff: "indexOf xs x > -1 \<longleftrightarrow> x \<in> set xs"
  by (induction xs) (auto simp: Let_def)

lemma splice1_indexOf: "x \<in> set xs \<Longrightarrow> splice1 xs (nat (indexOf xs x)) = remove1 x xs"
proof (induction xs)
  case Nil
  then show ?case by simp
next
  case (Cons y ys)
  show ?case
  proof (cases "y = x")
    case True
    then show ?thesis by (simp add: splice1_def)
  next
    case False
    with Cons.prems have in_ys: "x \<in> set ys" by simp
    then have nn: "\<not> indexOf ys x < 0" by (simp add: indexOf_nonneg_iff)
    then have "nat (indexOf ys x + 1) = Suc (nat (indexOf ys x))" by simp
    with False nn Cons.IH [OF in_ys] show ?thesis
      by (simp add: splice1_def Let_def)
  qed
qed

lemma foldl_read:
  "foldl (\<lambda>r c. if chan_isRead c \<or> chan_isMuted c then r else False) r0 cs =
     (r0 \<and> (\<forall>c\<in>set cs. chan_isRead c \<or> chan_isMuted c))"
  by (induction cs arbitrary: r0) auto

lemma foldl_mentions:
  "foldl (\<lambda>m c. m + chan_mentions c) m0 cs = m0 + sum_list (map chan_mentions cs)"
  by (induction cs arbitrary: m0) auto

lemma computeReadState_iff:
  "computeReadState a \<longleftrightarrow>
     (\<forall>c\<in>set (channels a) \<union> set (dms a). chan_isRead c \<or> chan_isMuted c)"
  by (auto simp: computeReadState_def foldl_read)

lemma computeMentions_sum:
  "computeMentions a =
     sum_list (map chan_mentions (channels a)) + sum_list (map chan_mentions (dms a))"
  by (simp add: computeMentions_def foldl_mentions)

lemma sum_list_bump_mentions:
  "i < length cs \<Longrightarrow>
   sum_list (map chan_mentions (bump_mentions cs i d)) = sum_list (map chan_mentions cs) + d"
proof (induction cs arbitrary: i)
  case Nil
  then show ?case by simp
next
  case (Cons c cs)
  show ?case
  proof (cases i)
    case 0
    then show ?thesis by (simp add: bump_mentions_def)
  next
    case (Suc j)
    with Cons.prems have "j < length cs" by simp
    from Cons.IH [OF this] Suc show ?thesis by (simp add: bump_mentions_def)
  qed
qed

subsection \<open>The scan of a bucket\<close>

lemma scanUsers_Cons:
  "us i = Some u \<Longrightarrow>
   scanUsers us lq (i # ids) acc ex =
     (if isMatch_spec lq u
      then (if Suc (length acc) = MENTION_SEARCH_LIMIT
            then Inr (acc @ [u], if isExact_spec lq u then Some (length acc) else ex)
            else scanUsers us lq ids (acc @ [u])
                   (if isExact_spec lq u then Some (length acc) else ex))
      else scanUsers us lq ids acc ex)"
  by (auto simp: isMatch_spec_def isExact_spec_def indexOf_str_0_iff Let_def)

lemma scanUsers_missing:
  "us i = None \<Longrightarrow> scanUsers us lq (i # ids) acc ex = Inl TypeError"
  by simp

declare scanUsers.simps(2) [simp del]

lemma scanUsers_closed:
  assumes "\<forall>i\<in>set ids. us i \<noteq> None" and "length acc < MENTION_SEARCH_LIMIT"
  shows "scanUsers us lq ids acc ex =
           Inr (acc @ take (MENTION_SEARCH_LIMIT - length acc)
                        (filter (isMatch_spec lq) (List.map_filter us ids)),
                exactIndex_from lq (length acc)
                  (take (MENTION_SEARCH_LIMIT - length acc)
                     (filter (isMatch_spec lq) (List.map_filter us ids))) ex)"
  using assms
proof (induction ids arbitrary: acc ex)
  case Nil
  then show ?case by simp
next
  case (Cons i ids)
  from Cons.prems obtain u where u: "us i = Some u" by auto
  from Cons.prems have rest: "\<forall>i\<in>set ids. us i \<noteq> None" by simp
  show ?case
  proof (cases "isMatch_spec lq u")
    case False
    with u Cons.IH [OF rest Cons.prems(2), of ex] show ?thesis
      by (simp add: scanUsers_Cons)
  next
    case True
    show ?thesis
    proof (cases "Suc (length acc) = MENTION_SEARCH_LIMIT")
      case full: True
      then have one: "MENTION_SEARCH_LIMIT - length acc = Suc 0" by simp
      from True u full show ?thesis
        by (simp add: one scanUsers_Cons)
    next
      case notfull: False
      with Cons.prems(2) have lt: "length (acc @ [u]) < MENTION_SEARCH_LIMIT" by simp
      from Cons.prems(2)
      have split: "MENTION_SEARCH_LIMIT - length acc =
                     Suc (MENTION_SEARCH_LIMIT - Suc (length acc))"
        by simp
      from True u notfull
        Cons.IH [OF rest lt, of "if isExact_spec lq u then Some (length acc) else ex"]
      show ?thesis
        by (simp add: split scanUsers_Cons)
    qed
  qed
qed

lemma exactIndex_from_snoc:
  "exactIndex_from lq k (ms @ [u]) ex =
     (if isExact_spec lq u then Some (k + length ms) else exactIndex_from lq k ms ex)"
  by (induction ms arbitrary: k ex) auto

lemma exactIndex_spec_snoc:
  "exactIndex_spec lq (ms @ [u]) =
     (if isExact_spec lq u then Some (length ms) else exactIndex_spec lq ms)"
proof -
  have same: "filter (\<lambda>i. isExact_spec lq ((ms @ [u]) ! i)) [0..<length ms] =
        filter (\<lambda>i. isExact_spec lq (ms ! i)) [0..<length ms]"
    by (rule filter_cong) (auto simp: nth_append)
  show ?thesis
    by (simp add: exactIndex_spec_def same Let_def)
qed

lemma exactIndex_from_spec:
  "exactIndex_from lq k ms ex =
     (case exactIndex_spec lq ms of None \<Rightarrow> ex | Some i \<Rightarrow> Some (k + i))"
proof (induction ms rule: rev_induct)
  case Nil
  show ?case by (simp add: exactIndex_spec_def)
next
  case (snoc u ms)
  then show ?case by (simp add: exactIndex_from_snoc exactIndex_spec_snoc)
qed

lemma findUsersByName_refines:
  assumes "index_in_users a"
  shows "findUsersByName a q = Inr (findUsersByName_spec a q)"
proof (cases "toLowerCase q")
  case Nil
  then show ?thesis by (simp add: findUsersByName_def findUsersByName_spec_def)
next
  case (Cons c cs)
  show ?thesis
  proof (cases "userNamesMap a c")
    case None
    with Cons show ?thesis by (simp add: findUsersByName_def findUsersByName_spec_def)
  next
    case (Some ids)
    with assms have present: "\<forall>i\<in>set ids. users a i \<noteq> None"
      unfolding index_in_users_def by blast
    have lim: "length ([] :: user list) < MENTION_SEARCH_LIMIT"
      by (simp add: MENTION_SEARCH_LIMIT_def)
    from Cons Some scanUsers_closed [OF present lim, of "c # cs" None] show ?thesis
      by (simp add: findUsersByName_def findUsersByName_spec_def exactIndex_from_spec
               split: option.splits)
  qed
qed

lemma exactIndex_ok_snoc:
  "exactIndex_ok lq acc ex \<Longrightarrow>
   exactIndex_ok lq (acc @ [u]) (if isExact_spec lq u then Some (length acc) else ex)"
  by (auto simp: exactIndex_ok_def nth_append split: option.splits)

lemma scanUsers_exactIndex_ok:
  "scanUsers us lq ids acc ex = Inr (r, ex') \<Longrightarrow> exactIndex_ok lq acc ex \<Longrightarrow>
   exactIndex_ok lq r ex'"
proof (induction ids arbitrary: acc ex)
  case Nil
  then show ?case by simp
next
  case (Cons i ids)
  show ?case
  proof (cases "us i")
    case None
    with Cons.prems(1) show ?thesis by (simp add: scanUsers_missing)
  next
    case (Some u)
    note snoc = exactIndex_ok_snoc [OF Cons.prems(2), of u]
    from Cons.prems(1) Some Cons.prems(2) snoc Cons.IH [OF _ snoc] Cons.IH [OF _ Cons.prems(2)]
    show ?thesis
      by (auto simp: scanUsers_Cons split: if_splits)
  qed
qed

lemma findUsersByName_exactIndex_ok:
  assumes "findUsersByName a q = Inr (us, ei)"
  shows "exactIndex_ok (toLowerCase q) us ei"
proof (cases "toLowerCase q")
  case Nil
  with assms show ?thesis by (auto simp: findUsersByName_def exactIndex_ok_def)
next
  case (Cons c cs)
  show ?thesis
  proof (cases "userNamesMap a c")
    case None
    with Cons assms show ?thesis by (auto simp: findUsersByName_def exactIndex_ok_def)
  next
    case (Some ids)
    have start: "exactIndex_ok (toLowerCase q) [] None" by (simp add: exactIndex_ok_def)
    from Cons Some assms
    have "scanUsers (users a) (toLowerCase q) ids [] None = Inr (us, ei)"
      by (simp add: findUsersByName_def)
    from scanUsers_exactIndex_ok [OF this start] show ?thesis .
  qed
qed

subsection \<open>Saving users\<close>

lemma saveUser_rename:
  assumes "users a (user_id u) = Some old" and "user_id old = user_id u"
    and "user_name old \<noteq> user_name u"
    and "user_name old = m # ms" and "user_name u = n # ns"
    and "userNamesMap a (toLowerCase_char m) = Some bucket"
  shows "saveUser a u =
     Inr (u, a\<lparr> users := (users a)(user_id u \<mapsto> u),
                userNamesMap :=
                  ((userNamesMap a)(toLowerCase_char m \<mapsto> remove1 (user_id u) bucket))
                    (toLowerCase_char n \<mapsto>
                       (case ((userNamesMap a)
                                (toLowerCase_char m \<mapsto> remove1 (user_id u) bucket))
                               (toLowerCase_char n) of
                          None \<Rightarrow> [] | Some b \<Rightarrow> b) @ [user_id u]) \<rparr>)"
proof (cases "user_id u \<in> set bucket")
  case True
  with assms show ?thesis
    unfolding saveUser_def
    by (simp add: indexOf_gt_iff splice1_indexOf Let_def split: option.splits)
next
  case False
  then have "remove1 (user_id u) bucket = bucket" by (simp add: remove1_idem)
  moreover from assms(6)
  have "(userNamesMap a)(toLowerCase_char m \<mapsto> bucket) = userNamesMap a"
    by (rule map_upd_triv)
  ultimately show ?thesis using assms False
    unfolding saveUser_def
    by (simp add: indexOf_gt_iff Let_def split: option.splits)
qed

lemma saveUser_returns:
  "saveUser a u = Inr (r, a') \<Longrightarrow> r = u \<and> users a' (user_id u) = Some u"
  unfolding saveUser_def
  by (auto simp: Let_def split: list.splits option.splits sum.splits if_splits)

subsection \<open>What the index keeps\<close>

lemma in_set_splice1: "x \<in> set (splice1 xs k) \<Longrightarrow> x \<in> set xs"
  by (auto simp: splice1_def dest: in_set_takeD in_set_dropD)

lemma notin_set_splice1: "x \<notin> set xs \<Longrightarrow> x \<notin> set (splice1 xs k)"
  using in_set_splice1 by fast

lemma saveUser_users:
  "saveUser a u = Inr (r, a') \<Longrightarrow> users a' = (users a)(user_id u \<mapsto> u)"
  unfolding saveUser_def
  by (auto simp: Let_def split: list.splits option.splits sum.splits if_splits)

lemma saveUser_bucket_ids:
  assumes "saveUser a u = Inr (r, a')" and "userNamesMap a' c = Some ids" and "i \<in> set ids"
  shows "i = user_id u \<or> (\<exists>ids0. userNamesMap a c = Some ids0 \<and> i \<in> set ids0)"
  using assms unfolding saveUser_def
  by (auto simp: Let_def notin_set_splice1
        split: list.splits option.splits sum.splits if_splits)

lemma saveUser_index_in_users:
  assumes "saveUser a u = Inr (r, a')" and "index_in_users a"
  shows "index_in_users a'"
  unfolding index_in_users_def
proof (intro allI impI ballI)
  fix c ids i
  assume b: "userNamesMap a' c = Some ids" and i: "i \<in> set ids"
  from saveUser_bucket_ids [OF assms(1) b i] assms(2)
  have "i = user_id u \<or> users a i \<noteq> None"
    unfolding index_in_users_def by blast
  then show "users a' i \<noteq> None"
    by (auto simp: saveUser_users [OF assms(1)])
qed

lemma Account_index_in_users: "index_in_users (Account service cfg)"
  by (simp add: index_in_users_def Account_def)

lemma saveUsers_index_in_users:
  "saveUsers a us = Inr a' \<Longrightarrow> index_in_users a \<Longrightarrow> index_in_users a'"
proof (induction us arbitrary: a)
  case Nil
  then show ?case by simp
next
  case (Cons u us)
  from Cons.prems(1) obtain r a1 where s: "saveUser a u = Inr (r, a1)" and rest: "saveUsers a1 us = Inr a'"
    by (auto split: sum.splits)
  from Cons.IH [OF rest saveUser_index_in_users [OF s Cons.prems(2)]] show ?case .
qed

lemma count_list_remove1:
  "count_list (remove1 x xs) y =
     (if x = y \<and> x \<in> set xs then count_list xs y - 1 else count_list xs y)"
  by (induction xs) auto

lemma saveUser_new:
  assumes "users a (user_id u) = None" and "user_name u = n # ns"
  shows "saveUser a u =
     Inr (u, a\<lparr> users := (users a)(user_id u \<mapsto> u),
                userNamesMap :=
                  (userNamesMap a)
                    (toLowerCase_char n \<mapsto> bucket_of a (toLowerCase_char n) @ [user_id u]) \<rparr>)"
  using assms unfolding saveUser_def bucket_of_def
  by (simp add: Let_def split: option.splits)

lemma saveUser_keeps_index:
  assumes save: "saveUser a u = Inr (r, a')"
    and cons: "index_consistent a" and inu: "index_in_users a"
    and fresh_name: "\<forall>old. users a (user_id u) = Some old \<longrightarrow> user_name old \<noteq> user_name u"
  shows "index_consistent a'"
proof -
  from save obtain n ns where name: "user_name u = n # ns"
    unfolding saveUser_def by (auto split: list.splits)
  have letter: "first_letter u = Some (toLowerCase_char n)"
    by (simp add: first_letter_def name)
  note ua' = saveUser_users [OF save]
  have others: "user_id v = i \<and>
        (\<exists>c. first_letter v = Some c \<and>
           (\<forall>c'. count_list (bucket_of a c') i = (if c' = c then 1 else 0)))"
    if "users a' i = Some v" and "i \<noteq> user_id u" for i v
  proof -
    from that have "users a i = Some v" by (simp add: ua')
    with cons show ?thesis unfolding index_consistent_def by blast
  qed
  show ?thesis
  proof (cases "users a (user_id u)")
    case None
    have absent: "count_list (bucket_of a c) (user_id u) = 0" for c
    proof (cases "userNamesMap a c")
      case None
      then show ?thesis by (simp add: bucket_of_def)
    next
      case (Some b)
      with inu \<open>users a (user_id u) = None\<close> have "user_id u \<notin> set b"
        unfolding index_in_users_def by blast
      with Some show ?thesis by (simp add: bucket_of_def)
    qed
    from save [unfolded saveUser_new [OF None name]]
    have ba': "bucket_of a' c' =
        (if c' = toLowerCase_char n then bucket_of a (toLowerCase_char n) @ [user_id u]
         else bucket_of a c')" for c'
      by (auto simp: bucket_of_def)
    show ?thesis
      unfolding index_consistent_def
    proof (intro allI impI)
      fix i v
      assume v: "users a' i = Some v"
      show "user_id v = i \<and>
        (\<exists>c. first_letter v = Some c \<and>
           (\<forall>c'. count_list (bucket_of a' c') i = (if c' = c then 1 else 0)))"
      proof (cases "i = user_id u")
        case True
        with v have "v = u" by (simp add: ua')
        with True letter absent show ?thesis
          by (simp add: ba')
      next
        case False
        with others [OF v False] show ?thesis
          by (auto simp: ba')
      qed
    qed
  next
    case (Some old)
    with fresh_name have diff: "user_name old \<noteq> user_name u" by simp
    from cons Some obtain c where old: "user_id old = user_id u" "first_letter old = Some c"
      and cnt: "\<forall>c'. count_list (bucket_of a c') (user_id u) = (if c' = c then 1 else 0)"
      unfolding index_consistent_def by blast
    from old(2) obtain m ms where oname: "user_name old = m # ms" and c: "c = toLowerCase_char m"
      by (auto simp: first_letter_def split: list.splits)
    from cnt have one: "count_list (bucket_of a c) (user_id u) = 1" by simp
    then obtain b where b: "userNamesMap a c = Some b"
      by (cases "userNamesMap a c") (auto simp: bucket_of_def)
    with one have cb: "count_list b (user_id u) = 1"
      by (simp add: bucket_of_def)
    then have inb: "user_id u \<in> set b"
      by (auto simp: count_list_0_iff intro: ccontr)
    have bc: "b = bucket_of a c" using b by (simp add: bucket_of_def)
    from inb have inb': "user_id u \<in> set (bucket_of a c)" by (simp add: bc)
    from save [unfolded saveUser_rename [OF Some old(1) diff oname name b [unfolded c]]]
    have "bucket_of a' c' =
        (if c' = toLowerCase_char n
         then (if toLowerCase_char n = c then remove1 (user_id u) b
               else bucket_of a (toLowerCase_char n)) @ [user_id u]
         else if c' = c then remove1 (user_id u) b else bucket_of a c')" for c'
      by (auto simp: bucket_of_def c)
    then have ba': "bucket_of a' c' =
        (if c' = toLowerCase_char n
         then (if toLowerCase_char n = c then remove1 (user_id u) (bucket_of a c)
               else bucket_of a (toLowerCase_char n)) @ [user_id u]
         else if c' = c then remove1 (user_id u) (bucket_of a c) else bucket_of a c')" for c'
      by (simp only: bc)
    show ?thesis
      unfolding index_consistent_def
    proof (intro allI impI)
      fix i v
      assume v: "users a' i = Some v"
      show "user_id v = i \<and>
        (\<exists>c. first_letter v = Some c \<and>
           (\<forall>c'. count_list (bucket_of a' c') i = (if c' = c then 1 else 0)))"
      proof (cases "i = user_id u")
        case True
        with v have "v = u" by (simp add: ua')
        with True letter cnt inb' show ?thesis
          by (simp add: ba' count_list_remove1)
      next
        case False
        with others [OF v False] show ?thesis
          by (auto simp: ba' count_list_remove1)
      qed
    qed
  qed
qed

lemma Account_index_consistent: "index_consistent (Account service cfg)"
  by (simp add: index_consistent_def Account_def)

lemma saveUsers_keeps_index:
  "saveUsers a us = Inr a' \<Longrightarrow> index_consistent a \<Longrightarrow> index_in_users a \<Longrightarrow>
   changes_name a us \<Longrightarrow> index_consistent a'"
proof (induction us arbitrary: a)
  case Nil
  then show ?case by simp
next
  case (Cons u us)
  from Cons.prems(1) obtain r a1 where s: "saveUser a u = Inr (r, a1)"
    and rest: "saveUsers a1 us = Inr a'"
    by (auto split: sum.splits)
  from Cons.prems(4) have nm: "\<forall>old. users a (user_id u) = Some old \<longrightarrow> user_name old \<noteq> user_name u"
    by (auto split: option.splits)
  from Cons.prems(4) s have later: "changes_name a1 us" by simp
  from Cons.IH [OF rest saveUser_keeps_index [OF s Cons.prems(2,3) nm]
      saveUser_index_in_users [OF s Cons.prems(3)] later]
  show ?case .
qed

subsection \<open>The examples, evaluated\<close>

lemmas example_defs = fresh_def Account_def truthy_or_null_def alice_def alex_def alexander_def
  bob_def bob_1_def robert_1_def directory_def directory_rev_def

lemmas saveUser_eval = saveUser_def Let_def toLowerCase_char_def splice1_def

lemmas find_eval = findUsersByName_def toLowerCase_def toLowerCase_char_def scanUsers_Cons
  isMatch_spec_def isExact_spec_def MENTION_SEARCH_LIMIT_def

lemma saveUsers_bob_bob:
  "saveUsers fresh [bob_1, bob_1] =
     Inr (fresh\<lparr> users := [''1'' \<mapsto> bob_1],
                 userNamesMap := [CHR ''b'' \<mapsto> [''1'', ''1'']] \<rparr>)"
  by (simp add: example_defs saveUser_eval)

lemma saveUsers_bob_bob_robert:
  "saveUsers fresh [bob_1, bob_1, robert_1] =
     Inr (fresh\<lparr> users := [''1'' \<mapsto> robert_1],
                 userNamesMap := [CHR ''b'' \<mapsto> [''1''], CHR ''r'' \<mapsto> [''1'']] \<rparr>)"
  by (simp add: example_defs saveUser_eval)

lemma saveUsers_bob_robert:
  "saveUsers fresh [bob_1, robert_1] =
     Inr (fresh\<lparr> users := [''1'' \<mapsto> robert_1],
                 userNamesMap := [CHR ''b'' \<mapsto> [], CHR ''r'' \<mapsto> [''1'']] \<rparr>)"
  by (simp add: example_defs saveUser_eval)

lemma saveUsers_directory: "saveUsers fresh [alice, alex, alexander, bob] = Inr directory"
  by (simp add: example_defs saveUser_eval)

lemma saveUsers_directory_rev: "saveUsers fresh [alexander, alex] = Inr directory_rev"
  by (simp add: example_defs saveUser_eval)

lemma find_ale: "findUsersByName directory ''ale'' = Inr ([alex, alexander], None)"
  by (simp add: example_defs find_eval)

lemma find_alex: "findUsersByName directory ''alex'' = Inr ([alex, alexander], Some 0)"
  by (simp add: example_defs find_eval)

lemma find_al: "findUsersByName directory ''al'' = Inr ([alice, alex, alexander], None)"
  by (simp add: example_defs find_eval)

lemma find_alex_rev: "findUsersByName directory_rev ''alex'' = Inr ([alexander, alex], Some 1)"
  by (simp add: example_defs find_eval)

lemma index_in_users_directory: "index_in_users directory"
  by (auto simp: index_in_users_def example_defs split: if_splits)

section \<open>The claims\<close>

text \<open>
  C1. The claim: after any sequence of \<open>saveUser\<close> calls, also one that saves a user again
  under an unchanged name, every id of \<open>users\<close> stands exactly once in exactly one bucket.
  The code pushes the id in every call and removes the old entry only when the name changed:
  saving Bob twice leaves the id twice in bucket \<open>b\<close>, and a later rename to Robert takes only
  one of the two entries out, so that the id stands in the buckets \<open>b\<close> and \<open>r\<close>. Sequences
  without such a call keep the index consistent, see \<open>saveUsers_keeps_index\<close>.
\<close>

theorem saveUser_same_name_duplicates:
  "saveUsers fresh [bob_1, bob_1] =
     Inr (fresh\<lparr> users := [''1'' \<mapsto> bob_1],
                 userNamesMap := [CHR ''b'' \<mapsto> [''1'', ''1'']] \<rparr>) \<and>
   count_list [''1'', ''1''] (user_id bob_1) = 2 \<and>
   saveUsers fresh [bob_1, bob_1, robert_1] =
     Inr (fresh\<lparr> users := [''1'' \<mapsto> robert_1],
                 userNamesMap := [CHR ''b'' \<mapsto> [''1''], CHR ''r'' \<mapsto> [''1'']] \<rparr>)"
proof (intro conjI)
  show "saveUsers fresh [bob_1, bob_1] =
     Inr (fresh\<lparr> users := [''1'' \<mapsto> bob_1],
                 userNamesMap := [CHR ''b'' \<mapsto> [''1'', ''1'']] \<rparr>)"
    by (rule saveUsers_bob_bob)
  show "count_list [''1'', ''1''] (user_id bob_1) = 2"
    by (simp add: bob_1_def)
  show "saveUsers fresh [bob_1, bob_1, robert_1] =
     Inr (fresh\<lparr> users := [''1'' \<mapsto> robert_1],
                 userNamesMap := [CHR ''b'' \<mapsto> [''1''], CHR ''r'' \<mapsto> [''1'']] \<rparr>)"
    by (rule saveUsers_bob_bob_robert)
qed

text \<open>
  C2, as amended. \<open>findUsersByName\<close> does not reorder: when an exact match, without regard to
  case, is among the returned users, \<open>exactIndex\<close> is the position of an exact match. The
  consumer, \<open>onKeyUp\<close> of the chat box, inserts the user when one user matched and otherwise
  opens the menu with the user at \<open>exactIndex\<close> moved to index 0.
\<close>

theorem onKeyUp_moves_exact_match_to_front:
  assumes "findUsersByName a q = Inr (us, ei)"
    and "u \<in> set us"
    and "toLowerCase (user_name u) = toLowerCase q"
  shows "\<exists>i. ei = Some i \<and> i < length us \<and>
           toLowerCase (user_name (us ! i)) = toLowerCase q \<and>
           (if length us = 1
            then onKeyUp_mention a q = Inr (InsertUser (user_id (us ! i)))
            else onKeyUp_mention a q = Inr (PopupMenu (us ! i # splice1 us i)))"
proof -
  from findUsersByName_exactIndex_ok [OF assms(1)]
  have ok: "exactIndex_ok (toLowerCase q) us ei" .
  from assms(2,3) have "\<not> list_all (\<lambda>u. \<not> isExact_spec (toLowerCase q) u) us"
    by (auto simp: list_all_iff isExact_spec_def)
  with ok obtain i where i: "ei = Some i" "i < length us" "isExact_spec (toLowerCase q) (us ! i)"
    by (auto simp: exactIndex_ok_def split: option.splits)
  have "if length us = 1
        then onKeyUp_mention a q = Inr (InsertUser (user_id (us ! i)))
        else onKeyUp_mention a q = Inr (PopupMenu (us ! i # splice1 us i))"
  proof (cases us)
    case Nil
    with i(2) show ?thesis by simp
  next
    case (Cons x xs)
    with i assms(1) show ?thesis
      by (cases xs) (simp_all add: onKeyUp_mention_def)
  qed
  with i show ?thesis by (auto simp: isExact_spec_def)
qed

theorem onKeyUp_moves_exact_match_to_front_witness:
  "findUsersByName directory_rev ''alex'' = Inr ([alexander, alex], Some 1) \<and>
   alex \<in> set [alexander, alex] \<and>
   toLowerCase (user_name alex) = toLowerCase ''alex'' \<and>
   onKeyUp_mention directory_rev ''alex'' = Inr (PopupMenu [alex, alexander])"
proof -
  have h1: "findUsersByName directory_rev ''alex'' = Inr ([alexander, alex], Some 1)"
    by (rule find_alex_rev)
  have h2: "alex \<in> set [alexander, alex]" by simp
  have h3: "toLowerCase (user_name alex) = toLowerCase ''alex''"
    by (simp add: alex_def toLowerCase_def toLowerCase_char_def)
  from onKeyUp_moves_exact_match_to_front [OF h1 h2 h3] h1 h2 h3 show ?thesis
    by (simp add: splice1_def)
qed

text \<open>
  C2, as claimed, fails: with Alexander saved before Alex, the query \<open>alex\<close> returns Alexander
  at index 0 and the exact match Alex at index 1.
\<close>

theorem findUsersByName_exact_not_first:
  "saveUsers fresh [alexander, alex] = Inr directory_rev \<and>
   findUsersByName directory_rev ''alex'' = Inr ([alexander, alex], Some 1) \<and>
   toLowerCase (user_name alex) = toLowerCase ''alex'' \<and>
   toLowerCase (user_name ([alexander, alex] ! 0)) \<noteq> toLowerCase ''alex''"
proof (intro conjI)
  show "saveUsers fresh [alexander, alex] = Inr directory_rev"
    by (rule saveUsers_directory_rev)
  show "findUsersByName directory_rev ''alex'' = Inr ([alexander, alex], Some 1)"
    by (rule find_alex_rev)
  show "toLowerCase (user_name alex) = toLowerCase ''alex''"
    by (simp add: alex_def toLowerCase_def toLowerCase_char_def)
  show "toLowerCase (user_name ([alexander, alex] ! 0)) \<noteq> toLowerCase ''alex''"
    by (simp add: alexander_def toLowerCase_def toLowerCase_char_def)
qed

text \<open>
  C3, as amended. When every id of the index is a key of \<open>users\<close>, as it is after any
  sequence of \<open>saveUser\<close> calls on a new account, \<open>findUsersByName\<close> returns what the
  specification words: the users of the bucket of the first character of the lowercased
  query whose lowercased name equals or starts with the lowercased query, in the order of
  the bucket, cut after 5 matches, with the position of the exact match among them, if
  there is one. The empty query and a query without a bucket return no users and no exact
  index. With Alice, Alex, Alexander and Bob saved in this order, \<open>ale\<close> returns Alex and
  Alexander with no exact index, \<open>alex\<close> returns the same users with exact index 0, and \<open>al\<close>
  returns Alice, Alex and Alexander.
\<close>

theorem findUsersByName_meets_spec:
  "(index_in_users a \<longrightarrow> findUsersByName a q = Inr (findUsersByName_spec a q)) \<and>
   findUsersByName a [] = Inr ([], None) \<and>
   (toLowerCase q = c # cs \<and> userNamesMap a c = None \<longrightarrow>
      findUsersByName a q = Inr ([], None)) \<and>
   (saveUsers (Account service cfg) us = Inr a \<longrightarrow>
      findUsersByName a q = Inr (findUsersByName_spec a q)) \<and>
   saveUsers fresh [alice, alex, alexander, bob] = Inr directory \<and>
   findUsersByName directory ''ale'' = Inr ([alex, alexander], None) \<and>
   findUsersByName directory ''alex'' = Inr ([alex, alexander], Some 0) \<and>
   findUsersByName directory ''al'' = Inr ([alice, alex, alexander], None)"
proof -
  have "index_in_users a \<longrightarrow> findUsersByName a q = Inr (findUsersByName_spec a q)"
    by (simp add: findUsersByName_refines)
  moreover have "findUsersByName a [] = Inr ([], None)"
    by (simp add: findUsersByName_def toLowerCase_def)
  moreover have "toLowerCase q = c # cs \<and> userNamesMap a c = None \<longrightarrow>
      findUsersByName a q = Inr ([], None)"
    by (simp add: findUsersByName_def)
  moreover have "saveUsers (Account service cfg) us = Inr a \<longrightarrow>
      findUsersByName a q = Inr (findUsersByName_spec a q)"
    using saveUsers_index_in_users [OF _ Account_index_in_users, of service cfg us a]
    by (simp add: findUsersByName_refines)
  ultimately show ?thesis
    using saveUsers_directory find_ale find_alex find_al by blast
qed

theorem findUsersByName_meets_spec_witness:
  "index_in_users directory \<and>
   saveUsers fresh [alice, alex, alexander, bob] = Inr directory \<and>
   findUsersByName directory ''Alex'' = Inr ([alex, alexander], Some 0) \<and>
   toLowerCase ''Zed'' = CHR ''z'' # ''ed'' \<and> userNamesMap directory CHR ''z'' = None \<and>
   findUsersByName directory ''Zed'' = Inr ([], None)"
proof -
  have h1: "index_in_users directory" by (rule index_in_users_directory)
  have h2: "toLowerCase ''Zed'' = CHR ''z'' # ''ed'' \<and> userNamesMap directory CHR ''z'' = None"
    by (simp add: toLowerCase_def toLowerCase_char_def example_defs)
  have h3: "saveUsers
      (Account ''slack'' \<lparr> config_id = ''team'', config_name = ''Team'', config_icon = None,
         config_currentChannelId = None \<rparr>) [alice, alex, alexander, bob] = Inr directory"
    using saveUsers_directory by (simp only: fresh_def)
  have spec: "findUsersByName_spec directory ''Alex'' = ([alex, alexander], Some 0)"
    by (simp add: findUsersByName_spec_def exactIndex_spec_def find_eval example_defs
          upt_rec [of 0] upt_rec [of 1] upt_rec [of 2])
  from findUsersByName_meets_spec
    [where a = directory and q = "''Alex''" and service = "''slack''"
       and cfg = "\<lparr> config_id = ''team'', config_name = ''Team'', config_icon = None,
         config_currentChannelId = None \<rparr>"
       and us = "[alice, alex, alexander, bob]"] h1 h3
  have "findUsersByName directory ''Alex'' = Inr (findUsersByName_spec directory ''Alex'')"
    by blast
  moreover from findUsersByName_meets_spec
    [where a = directory and q = "''Zed''" and c = "CHR ''z''" and cs = "''ed''"] h2
  have "findUsersByName directory ''Zed'' = Inr ([], None)"
    by blast
  ultimately show ?thesis using h1 h2 spec saveUsers_directory by simp
qed

text \<open>
  C3, as claimed, fails in its example: Alice does not start with \<open>ale\<close>, so the query \<open>ale\<close>
  does not return Alice.
\<close>

theorem findUsersByName_ale_without_alice:
  "saveUsers fresh [alice, alex, alexander, bob] = Inr directory \<and>
   findUsersByName directory ''ale'' = Inr ([alex, alexander], None) \<and>
   findUsersByName directory ''ale'' \<noteq> Inr ([alice, alex, alexander], None)"
proof (intro conjI)
  show "saveUsers fresh [alice, alex, alexander, bob] = Inr directory"
    by (rule saveUsers_directory)
  show "findUsersByName directory ''ale'' = Inr ([alex, alexander], None)"
    by (rule find_ale)
  show "findUsersByName directory ''ale'' \<noteq> Inr ([alice, alex, alexander], None)"
    by (simp add: find_ale)
qed

text \<open>
  C4. \<open>computeReadState\<close> is true when there are no channels and no direct messages, and it
  is false exactly when some channel or direct message is neither read nor muted.
\<close>

theorem computeReadState_false_iff:
  "computeReadState (a\<lparr> channels := [], dms := [] \<rparr>) \<and>
   (computeReadState a = False \<longleftrightarrow>
      (\<exists>c\<in>set (channels a) \<union> set (dms a). chan_isRead c = False \<and> chan_isMuted c = False))"
  by (simp add: computeReadState_iff)

theorem computeReadState_false_iff_witness:
  "computeReadState fresh \<and> computeReadState aggregates_example = False \<and>
   computeReadState (aggregates_example \<lparr> dms := [] \<rparr>)"
  using computeReadState_false_iff [of aggregates_example]
    computeReadState_false_iff [of "aggregates_example \<lparr> dms := [] \<rparr>"]
    computeReadState_false_iff [of fresh]
  by (simp add: aggregates_example_def fresh_def Account_def unread_dm_def muted_channel_def)

text \<open>
  C5. \<open>updateMentions\<close> recomputes the sum of \<open>mentions\<close> over the channels and the direct
  messages, 0 when there are none. When the sum differs from the stored count it stores the
  sum and dispatches the mention signal; when it is equal the account stays as it is and
  nothing is dispatched. When the stored count was the sum and one child's mentions change
  by \<open>d\<close>, the stored count after \<open>updateMentions\<close> has changed by \<open>d\<close>.
\<close>

theorem updateMentions_exact_sum:
  "computeMentions (a\<lparr> channels := [], dms := [] \<rparr>) = 0 \<and>
   computeMentions a = sum_list (map chan_mentions (channels a @ dms a)) \<and>
   mentions (updateMentions a) = computeMentions a \<and>
   (computeMentions a \<noteq> mentions a \<longrightarrow>
      updateMentions a =
        a\<lparr> mentions := computeMentions a,
           signals := signals a @ [OnUpdateMentions, AccountManager_updateMentions] \<rparr>) \<and>
   (computeMentions a = mentions a \<longrightarrow> updateMentions a = a) \<and>
   (mentions a = computeMentions a \<and> i < length (channels a) \<longrightarrow>
      mentions (updateMentions (a\<lparr> channels := bump_mentions (channels a) i d \<rparr>)) =
        mentions a + d) \<and>
   (mentions a = computeMentions a \<and> i < length (dms a) \<longrightarrow>
      mentions (updateMentions (a\<lparr> dms := bump_mentions (dms a) i d \<rparr>)) = mentions a + d)"
proof -
  have upd: "mentions (updateMentions b) = computeMentions b" for b
    by (simp add: updateMentions_def Let_def)
  have "computeMentions (a\<lparr> channels := [], dms := [] \<rparr>) = 0"
    by (simp add: computeMentions_sum)
  moreover have "computeMentions a = sum_list (map chan_mentions (channels a @ dms a))"
    by (simp add: computeMentions_sum)
  moreover have "computeMentions a \<noteq> mentions a \<longrightarrow>
      updateMentions a =
        a\<lparr> mentions := computeMentions a,
           signals := signals a @ [OnUpdateMentions, AccountManager_updateMentions] \<rparr>"
    by (simp add: updateMentions_def Let_def)
  moreover have "computeMentions a = mentions a \<longrightarrow> updateMentions a = a"
    by (simp add: updateMentions_def Let_def)
  moreover have "mentions a = computeMentions a \<and> i < length (channels a) \<longrightarrow>
      mentions (updateMentions (a\<lparr> channels := bump_mentions (channels a) i d \<rparr>)) =
        mentions a + d"
    by (simp add: upd computeMentions_sum sum_list_bump_mentions)
  moreover have "mentions a = computeMentions a \<and> i < length (dms a) \<longrightarrow>
      mentions (updateMentions (a\<lparr> dms := bump_mentions (dms a) i d \<rparr>)) = mentions a + d"
    by (simp add: upd computeMentions_sum sum_list_bump_mentions)
  ultimately show ?thesis using upd [of a] by blast
qed

theorem updateMentions_exact_sum_witness:
  "mentions aggregates_example = computeMentions aggregates_example \<and>
   (0::nat) < length (channels aggregates_example) \<and>
   mentions (updateMentions
     (aggregates_example\<lparr> channels := bump_mentions (channels aggregates_example) 0 4 \<rparr>)) = 9 \<and>
   (0::nat) < length (dms aggregates_example) \<and>
   mentions (updateMentions
     (aggregates_example\<lparr> dms := bump_mentions (dms aggregates_example) 0 (-2) \<rparr>)) = 3 \<and>
   computeMentions fresh = mentions fresh \<and> updateMentions fresh = fresh \<and>
   computeMentions (aggregates_example\<lparr> mentions := 0 \<rparr>) \<noteq>
     mentions (aggregates_example\<lparr> mentions := 0 \<rparr>) \<and>
   signals (updateMentions (aggregates_example\<lparr> mentions := 0 \<rparr>)) =
     [OnUpdateMentions, AccountManager_updateMentions]"
  using updateMentions_exact_sum [of aggregates_example 0 4]
    updateMentions_exact_sum [of aggregates_example 0 "-2"]
    updateMentions_exact_sum [of fresh 0 0]
    updateMentions_exact_sum [of "aggregates_example\<lparr> mentions := 0 \<rparr>" 0 0]
  by (simp add: aggregates_example_def fresh_def Account_def unread_dm_def muted_channel_def
        computeMentions_def)

text \<open>
  C6. \<open>setReadState v\<close> leaves the account as it is when \<open>isRead\<close> is \<open>v\<close> already, and
  otherwise assigns \<open>v\<close> and dispatches the read-state signal. A second call with the same
  value changes nothing, so two calls in a row dispatch the signal at most once.
\<close>

theorem setReadState_dedup:
  "(isRead a = v \<longrightarrow> setReadState v a = a) \<and>
   (isRead a \<noteq> v \<longrightarrow>
      setReadState v a =
        a\<lparr> isRead := v,
           signals := signals a @ [OnUpdateReadState v, AccountManager_onUpdateReadState] \<rparr>) \<and>
   setReadState v (setReadState v a) = setReadState v a \<and>
   readStateDispatches (setReadState v (setReadState v a)) \<le> Suc (readStateDispatches a)"
  by (simp add: setReadState_def readStateDispatches_def)

theorem setReadState_dedup_witness:
  "isRead fresh \<noteq> False \<and>
   setReadState False (setReadState False fresh) =
     fresh\<lparr> isRead := False,
            signals := [OnUpdateReadState False, AccountManager_onUpdateReadState] \<rparr> \<and>
   isRead fresh = True \<and> setReadState True fresh = fresh"
  using setReadState_dedup [of fresh False] setReadState_dedup [of fresh True]
  by (simp add: fresh_def Account_def setReadState_def)

text \<open>
  C7. Saving Bob and then Robert under the id 1 on a fresh account leaves bucket \<open>b\<close> without
  the id and bucket \<open>r\<close> with the id once. In general, when the stored user of the id has
  another name, the first entry of the id is taken out of the bucket of the old name's
  lowercase first character, and then the id is pushed to the bucket of the new name's
  lowercase first character. A call that returns, returns the user that is now stored.
\<close>

theorem saveUser_rename_moves_entry:
  "saveUsers fresh [bob_1, robert_1] =
     Inr (fresh\<lparr> users := [''1'' \<mapsto> robert_1],
                 userNamesMap := [CHR ''b'' \<mapsto> [], CHR ''r'' \<mapsto> [''1'']] \<rparr>) \<and>
   (users a (user_id u) = Some old \<and> user_id old = user_id u \<and>
    user_name old \<noteq> user_name u \<and> user_name old = m # ms \<and> user_name u = n # ns \<and>
    userNamesMap a (toLowerCase_char m) = Some bucket \<longrightarrow>
      saveUser a u =
        Inr (u, a\<lparr> users := (users a)(user_id u \<mapsto> u),
                   userNamesMap :=
                     ((userNamesMap a)(toLowerCase_char m \<mapsto> remove1 (user_id u) bucket))
                       (toLowerCase_char n \<mapsto>
                          (case ((userNamesMap a)
                                   (toLowerCase_char m \<mapsto> remove1 (user_id u) bucket))
                                  (toLowerCase_char n) of
                             None \<Rightarrow> [] | Some b \<Rightarrow> b) @ [user_id u]) \<rparr>)) \<and>
   (saveUser a u = Inr (r, a') \<longrightarrow> r = u \<and> findUserById a' (user_id u) = Some u)"
proof (intro conjI impI)
  show "saveUsers fresh [bob_1, robert_1] =
     Inr (fresh\<lparr> users := [''1'' \<mapsto> robert_1],
                 userNamesMap := [CHR ''b'' \<mapsto> [], CHR ''r'' \<mapsto> [''1'']] \<rparr>)"
    by (rule saveUsers_bob_robert)
next
  assume "users a (user_id u) = Some old \<and> user_id old = user_id u \<and>
    user_name old \<noteq> user_name u \<and> user_name old = m # ms \<and> user_name u = n # ns \<and>
    userNamesMap a (toLowerCase_char m) = Some bucket"
  then show "saveUser a u =
        Inr (u, a\<lparr> users := (users a)(user_id u \<mapsto> u),
                   userNamesMap :=
                     ((userNamesMap a)(toLowerCase_char m \<mapsto> remove1 (user_id u) bucket))
                       (toLowerCase_char n \<mapsto>
                          (case ((userNamesMap a)
                                   (toLowerCase_char m \<mapsto> remove1 (user_id u) bucket))
                                  (toLowerCase_char n) of
                             None \<Rightarrow> [] | Some b \<Rightarrow> b) @ [user_id u]) \<rparr>)"
    by (elim conjE) (rule saveUser_rename [of a u old m ms n ns bucket])
next
  assume "saveUser a u = Inr (r, a')"
  from saveUser_returns [OF this] show "r = u" by simp
next
  assume "saveUser a u = Inr (r, a')"
  from saveUser_returns [OF this] show "findUserById a' (user_id u) = Some u"
    by (simp add: findUserById_def)
qed

theorem saveUser_rename_moves_entry_witness:
  "users (fresh\<lparr> users := [''1'' \<mapsto> bob_1], userNamesMap := [CHR ''b'' \<mapsto> [''1'']] \<rparr>)
     (user_id robert_1) = Some bob_1 \<and>
   user_id bob_1 = user_id robert_1 \<and> user_name bob_1 \<noteq> user_name robert_1 \<and>
   user_name bob_1 = CHR ''B'' # ''ob'' \<and> user_name robert_1 = CHR ''R'' # ''obert'' \<and>
   saveUser (fresh\<lparr> users := [''1'' \<mapsto> bob_1], userNamesMap := [CHR ''b'' \<mapsto> [''1'']] \<rparr>)
     robert_1 =
     Inr (robert_1,
          fresh\<lparr> users := [''1'' \<mapsto> robert_1],
                 userNamesMap := [CHR ''b'' \<mapsto> [], CHR ''r'' \<mapsto> [''1'']] \<rparr>)"
  using saveUser_rename_moves_entry
    [of "fresh\<lparr> users := [''1'' \<mapsto> bob_1], userNamesMap := [CHR ''b'' \<mapsto> [''1'']] \<rparr>"
        robert_1 bob_1 "CHR ''B''" "''ob''" "CHR ''R''" "''obert''" "[''1'']" robert_1
        "fresh\<lparr> users := [''1'' \<mapsto> robert_1],
                userNamesMap := [CHR ''b'' \<mapsto> [], CHR ''r'' \<mapsto> [''1'']] \<rparr>"]
  by (simp add: example_defs toLowerCase_char_def)

text \<open>
  C8. On the base class, \<open>disconnect\<close>, \<open>reload\<close>, \<open>getAllChannels\<close>, \<open>join\<close> and \<open>leave\<close>
  fail for every account and every channel with the error of a method that a subclass has
  to implement.
\<close>

theorem lifecycle_not_implemented:
  "disconnect a = Inl (Error ''Should be implemented by subclass'') \<and>
   reload a = Inl (Error ''Should be implemented by subclass'') \<and>
   getAllChannels a = Inl (Error ''Should be implemented by subclass'') \<and>
   join a c = Inl (Error ''Should be implemented by subclass'') \<and>
   leave a c = Inl (Error ''Should be implemented by subclass'')"
  by (simp add: disconnect_def reload_def getAllChannels_def join_def leave_def)

text \<open>
  C9. \<open>findChannelByUserId\<close> returns only an element of \<open>dms\<close> whose \<open>userId\<close> is the queried
  id, returns nothing exactly when \<open>dms\<close> has no such element, and does not depend on
  \<open>channels\<close>.
\<close>

theorem findChannelByUserId_dms_only:
  "(findChannelByUserId a i = Some c \<longrightarrow> c \<in> set (dms a) \<and> chan_userId c = Some i) \<and>
   (findChannelByUserId a i = None \<longleftrightarrow> (\<forall>d\<in>set (dms a). chan_userId d \<noteq> Some i)) \<and>
   findChannelByUserId (a\<lparr> channels := cs \<rparr>) i = findChannelByUserId a i"
  by (auto simp: findChannelByUserId_def find_Some_iff find_None_iff)

theorem findChannelByUserId_dms_only_witness:
  "findChannelByUserId aggregates_example ''1'' = Some unread_dm \<and>
   unread_dm \<in> set (dms aggregates_example) \<and> chan_userId unread_dm = Some ''1'' \<and>
   findChannelByUserId (fresh\<lparr> channels := [unread_dm] \<rparr>) ''1'' = None"
  using findChannelByUserId_dms_only [of aggregates_example "''1''" unread_dm "[]"]
    findChannelByUserId_dms_only [of fresh "''1''" unread_dm "[unread_dm]"]
  by (simp add: aggregates_example_def fresh_def Account_def unread_dm_def muted_channel_def
        findChannelByUserId_def)

text \<open>
  C10. \<open>setReadState\<close>, \<open>updateReadState\<close> and \<open>updateMentions\<close> change no field of the account
  other than \<open>isRead\<close>, \<open>mentions\<close> and the trace of dispatched signals; the first two leave
  \<open>mentions\<close> and the last leaves \<open>isRead\<close> as it is.
\<close>

theorem aggregate_updates_frame:
  "same_frame a (setReadState v a) \<and> mentions (setReadState v a) = mentions a \<and>
   same_frame a (updateReadState a) \<and> mentions (updateReadState a) = mentions a \<and>
   same_frame a (updateMentions a) \<and> isRead (updateMentions a) = isRead a"
  by (simp add: same_frame_def setReadState_def updateReadState_def updateMentions_def Let_def)

theorem aggregate_updates_frame_witness:
  "channels (updateMentions (updateReadState aggregates_example)) = [muted_channel] \<and>
   dms (setReadState False aggregates_example) = [unread_dm] \<and>
   url (updateReadState aggregates_example) = ''https://team.slack.com''"
  using aggregate_updates_frame [of aggregates_example False]
    aggregate_updates_frame [of "updateReadState aggregates_example" False]
  by (simp add: same_frame_def aggregates_example_def fresh_def Account_def)

end
